theory Spec2Isabelle
  imports Complex_Main
begin

section \<open>Numbers\<close>

text \<open>
  The library is templated on a time type \<open>T\<close> and a rate type \<open>F\<close>, both \<open>double\<close>
  by default. Times (pillar times and query times) are modelled as real numbers. Rates
  are real numbers extended with the not-a-number value, which every arithmetic
  operation propagates and which every ordered comparison rejects. In the kernel's
  \<open>value\<close>, \<open>integral\<close> and \<open>discount\<close> and in the curves, rounding, overflow and the
  two infinities are not modelled: the arithmetic on these numbers is exact. The
  functions that translate times in place are polymorphic in the time type instead and
  assume nothing of its arithmetic.
\<close>

datatype fl = NaN | Fin real

instantiation fl :: "{zero, plus, minus, uminus, times, ord}"
begin

definition zero_fl :: fl where
  "zero_fl = Fin 0"

definition plus_fl :: "fl \<Rightarrow> fl \<Rightarrow> fl" where
  "plus_fl a b = (case a of NaN \<Rightarrow> NaN | Fin x \<Rightarrow> (case b of NaN \<Rightarrow> NaN | Fin y \<Rightarrow> Fin (x + y)))"

definition minus_fl :: "fl \<Rightarrow> fl \<Rightarrow> fl" where
  "minus_fl a b = (case a of NaN \<Rightarrow> NaN | Fin x \<Rightarrow> (case b of NaN \<Rightarrow> NaN | Fin y \<Rightarrow> Fin (x - y)))"

definition uminus_fl :: "fl \<Rightarrow> fl" where
  "uminus_fl a = (case a of NaN \<Rightarrow> NaN | Fin x \<Rightarrow> Fin (- x))"

definition times_fl :: "fl \<Rightarrow> fl \<Rightarrow> fl" where
  "times_fl a b = (case a of NaN \<Rightarrow> NaN | Fin x \<Rightarrow> (case b of NaN \<Rightarrow> NaN | Fin y \<Rightarrow> Fin (x * y)))"

definition less_eq_fl :: "fl \<Rightarrow> fl \<Rightarrow> bool" where
  "less_eq_fl a b = (case a of NaN \<Rightarrow> False | Fin x \<Rightarrow> (case b of NaN \<Rightarrow> False | Fin y \<Rightarrow> x \<le> y))"

definition less_fl :: "fl \<Rightarrow> fl \<Rightarrow> bool" where
  "less_fl a b = (case a of NaN \<Rightarrow> False | Fin x \<Rightarrow> (case b of NaN \<Rightarrow> False | Fin y \<Rightarrow> x < y))"

instance ..

end

text \<open>\<open>std::exp\<close> on a rate.\<close>

definition fexp :: "fl \<Rightarrow> fl" where
  "fexp a = (case a of NaN \<Rightarrow> NaN | Fin x \<Rightarrow> Fin (exp x))"

section \<open>Standard-library searches\<close>

text \<open>
  \<open>std::lower_bound\<close>, \<open>std::upper_bound\<close> and \<open>std::adjacent_find\<close> belong to the C++
  standard library. The two bounds are the usual bisection of the range
  \<open>[first, first + len)\<close>: \<open>right x\<close> says that the partition point lies after an element \<open>x\<close>.
  For \<open>lower_bound\<close> that is \<open>x < val\<close>, for \<open>upper_bound\<close> it is \<open>\<not> val < x\<close>.
  Arrays are lists read by index; a pointer with a count \<open>n\<close> is a list together with \<open>n\<close>.
\<close>

function bisect :: "('a \<Rightarrow> bool) \<Rightarrow> 'a list \<Rightarrow> nat \<Rightarrow> nat \<Rightarrow> nat" where
  "bisect right t first len =
     (if len = 0 then first
      else let half = len div 2; middle = first + half
           in if right (t ! middle) then bisect right t (middle + 1) (len - half - 1)
              else bisect right t first half)"
  by pat_completeness auto
termination
  by (relation "measure (\<lambda>(right, t, first, len). len)") auto

declare bisect.simps [simp del]

definition lower_bound :: "real list \<Rightarrow> nat \<Rightarrow> real \<Rightarrow> nat" where
  "lower_bound t n val = bisect (\<lambda>x. x < val) t 0 n"

definition upper_bound :: "'a::ord list \<Rightarrow> nat \<Rightarrow> 'a \<Rightarrow> nat" where
  "upper_bound t n val = bisect (\<lambda>x. \<not> val < x) t 0 n"

text \<open>
  \<open>adjacent_find\<close> walks the range \<open>[b, e)\<close> and returns the index of the first
  element that is in relation \<open>p\<close> with its successor, or \<open>e\<close> when there is none.
\<close>

function adjacent_find :: "('a \<Rightarrow> 'a \<Rightarrow> bool) \<Rightarrow> 'a list \<Rightarrow> nat \<Rightarrow> nat \<Rightarrow> nat" where
  "adjacent_find p t b e =
     (if e \<le> b \<or> e \<le> b + 1 then e
      else if p (t ! b) (t ! (b + 1)) then b
      else adjacent_find p t (b + 1) e)"
  by pat_completeness auto
termination
  by (relation "measure (\<lambda>(p, t, b, e). e - b)") auto

declare adjacent_find.simps [simp del]

section \<open>The piecewise-flat kernel (\<open>tmx::pwflat\<close>)\<close>

text \<open>\<open>monotonic(n, t)\<close>: strictly increasing values.\<close>

definition monotonic :: "nat \<Rightarrow> real list \<Rightarrow> bool" where
  "monotonic n t = (adjacent_find (\<lambda>a b. a \<ge> b) t 0 n = n)"

text \<open>\<open>value(u, n, t, f, _f)\<close>: the forward rate at \<open>u\<close>.\<close>

definition pwflat_value :: "real \<Rightarrow> nat \<Rightarrow> real list \<Rightarrow> fl list \<Rightarrow> fl \<Rightarrow> fl" where
  "pwflat_value u n t f ef =
     (if u < 0 then NaN
      else if n = 0 then ef
      else let ti = lower_bound t n u
           in if ti = n then ef else f ! ti)"

text \<open>The overload of \<open>value\<close> on two spans; a span is a list, its size the length.\<close>

definition pwflat_value_span :: "real \<Rightarrow> real list \<Rightarrow> fl list \<Rightarrow> fl \<Rightarrow> fl" where
  "pwflat_value_span u t f ef =
     (if length t \<noteq> length f then NaN
      else pwflat_value u (length t) t f ef)"

text \<open>
  \<open>integral(u, n, t, f, _f)\<close>. The \<open>for\<close> loop carries the index \<open>i\<close>, the sum \<open>I\<close> and
  the previous pillar \<open>t_\<close> (here \<open>t0\<close>); it returns all three, since the code reads
  \<open>i\<close> and \<open>t_\<close> after the loop. The extrapolation value \<open>_f\<close> is written \<open>ef\<close>.
\<close>

function integral_loop ::
  "real \<Rightarrow> nat \<Rightarrow> real list \<Rightarrow> fl list \<Rightarrow> nat \<Rightarrow> fl \<Rightarrow> real \<Rightarrow> nat \<times> fl \<times> real" where
  "integral_loop u n t f i I t0 =
     (if i < n \<and> t ! i \<le> u
      then integral_loop u n t f (i + 1) (I + f ! i * Fin (t ! i - t0)) (t ! i)
      else (i, I, t0))"
  by pat_completeness auto
termination
  by (relation "measure (\<lambda>(u, n, t, f, i, I, t0). n - i)") auto

declare integral_loop.simps [simp del]

definition pwflat_integral :: "real \<Rightarrow> nat \<Rightarrow> real list \<Rightarrow> fl list \<Rightarrow> fl \<Rightarrow> fl" where
  "pwflat_integral u n t f ef =
     (if u < 0 then NaN
      else if u = 0 then Fin 0
      else if n = 0 then Fin u * ef
      else case integral_loop u n t f 0 (Fin 0) 0 of
             (i, I, t0) \<Rightarrow>
               if u > t0 then I + (if i = n then ef else f ! i) * Fin (u - t0) else I)"

text \<open>\<open>discount(u, n, t, f, _f)\<close>.\<close>

definition pwflat_discount :: "real \<Rightarrow> nat \<Rightarrow> real list \<Rightarrow> fl list \<Rightarrow> fl \<Rightarrow> fl" where
  "pwflat_discount u n t f ef = fexp (- pwflat_integral u n t f ef)"

text \<open>
  \<open>translate(u, n, t)\<close> is a template on the time type \<open>T\<close>. It uses of \<open>T\<close> the
  subtraction \<open>ti - u\<close> and the comparison \<open>0 < ti\<close>, and the scoped wrapper the negation
  \<open>-dt\<close>. The model is polymorphic in the same way, in a type that has these operations
  and of which no law is assumed: what is proved of it holds for \<open>double\<close>, whose
  subtraction rounds, as for a type whose arithmetic is exact.

  The function writes into the caller's array and returns a view of part of it, so the
  array is an explicit store: a list \<open>mem\<close> of times, in which a pointer is an index and
  a span is a pair of the index of its first element and its size. \<open>std::transform\<close>
  over \<open>[t, t + n)\<close> with the same range as destination rewrites the \<open>n\<close> cells from index
  \<open>p\<close> on; the searched range is the rewritten one.
\<close>

type_synonym span = "nat \<times> nat"

definition transform_minus :: "'a::minus \<Rightarrow> nat \<Rightarrow> nat \<Rightarrow> 'a list \<Rightarrow> 'a list" where
  "transform_minus u n p mem =
     take p mem @ map (\<lambda>ti. ti - u) (take n (drop p mem)) @ drop (p + n) mem"

definition pwflat_translate ::
  "'a::{minus, zero, ord} \<Rightarrow> nat \<Rightarrow> nat \<Rightarrow> 'a list \<Rightarrow> 'a list \<times> span" where
  "pwflat_translate u n p mem =
     (let mem' = transform_minus u n p mem;
          m = upper_bound (drop p mem') n 0
      in (mem', (p + m, n - m)))"

definition pwflat_translate_span ::
  "'a::{minus, zero, ord} \<Rightarrow> span \<Rightarrow> 'a list \<Rightarrow> 'a list \<times> span" where
  "pwflat_translate_span u s mem = pwflat_translate u (snd s) (fst s) mem"

section \<open>The scoped wrapper (\<open>tmx::translate\<close>)\<close>

text \<open>
  The class keeps the shift, the size of the translated view and the whole span. Its
  constructor translates the span by \<open>dt\<close>, its destructor translates the whole span by
  \<open>-dt\<close>; both act on the store. The conversion to a span returns the last \<open>n\<close> cells.
\<close>

record 'a translate =
  tr_dt :: 'a
  tr_n :: nat
  tr_t :: span

definition translate_ctor ::
  "'a::{minus, zero, ord} \<Rightarrow> span \<Rightarrow> 'a list \<Rightarrow> 'a translate \<times> 'a list" where
  "translate_ctor dt t mem =
     (case pwflat_translate_span dt t mem of
        (mem', s) \<Rightarrow> (\<lparr>tr_dt = dt, tr_n = snd s, tr_t = t\<rparr>, mem'))"

definition translate_dtor ::
  "'a::{minus, uminus, zero, ord} translate \<Rightarrow> 'a list \<Rightarrow> 'a list" where
  "translate_dtor x mem = fst (pwflat_translate_span (- tr_dt x) (tr_t x) mem)"

definition translate_size :: "'a translate \<Rightarrow> nat" where
  "translate_size x = tr_n x"

definition translate_span :: "'a translate \<Rightarrow> span" where
  "translate_span x = (fst (tr_t x) + snd (tr_t x) - tr_n x, tr_n x)"

section \<open>The time type \<open>double\<close>\<close>

text \<open>
  To run the templates at \<open>T = double\<close>: a finite double is a real number \<open>m * 2^e\<close>
  with an integer \<open>m\<close>, \<open>|m| < 2^53\<close>, and \<open>e \<ge> -1074\<close>. The difference of two doubles is
  their exact difference rounded to the nearest such number, and to the one with the
  even \<open>m\<close> when two are equally near (IEEE 754 binary64 in its default rounding mode);
  negation and comparison are exact. Differences beyond the largest finite double, the
  infinities, not-a-number and the sign of zero are not modelled.
\<close>

definition round_even :: "real \<Rightarrow> int" where
  "round_even q =
     (let lo = \<lfloor>q\<rfloor>
      in if q - of_int lo < 1 / 2 then lo
         else if 1 / 2 < q - of_int lo then lo + 1
         else if even lo then lo else lo + 1)"

definition round_double :: "real \<Rightarrow> real" where
  "round_double x =
     (if x = 0 then 0
      else let e = max (\<lfloor>log 2 \<bar>x\<bar>\<rfloor> - 52) (- 1074)
           in of_int (round_even (x / 2 powi e)) * 2 powi e)"

datatype double = Double real

instantiation double :: "{zero, minus, uminus, ord}"
begin

definition zero_double :: double where
  "zero_double = Double 0"

definition minus_double :: "double \<Rightarrow> double \<Rightarrow> double" where
  "minus_double a b = (case a of Double x \<Rightarrow> (case b of Double y \<Rightarrow> Double (round_double (x - y))))"

definition uminus_double :: "double \<Rightarrow> double" where
  "uminus_double a = (case a of Double x \<Rightarrow> Double (- x))"

definition less_eq_double :: "double \<Rightarrow> double \<Rightarrow> bool" where
  "less_eq_double a b = (case a of Double x \<Rightarrow> (case b of Double y \<Rightarrow> x \<le> y))"

definition less_double :: "double \<Rightarrow> double \<Rightarrow> bool" where
  "less_double a b = (case a of Double x \<Rightarrow> (case b of Double y \<Rightarrow> x < y))"

instance ..

end

section \<open>Curves (\<open>tmx::curve\<close>)\<close>

text \<open>
  Modelled from the spec: the kernel function \<open>tmx::pwflat::forward\<close>, which
  \<open>curve::pwflat::_value\<close> calls, is not among the sources; the kernel header at hand has
  \<open>value\<close>, \<open>integral\<close>, \<open>discount\<close>, \<open>spot\<close> and \<open>translate\<close>. The spec says of the
  piecewise-flat curve that it wraps the kernel over its own arrays and that its
  \<open>value\<close> delegates to the kernel function, which is the kernel's \<open>value(u, ...)\<close>.
\<close>

definition pwflat_forward :: "real \<Rightarrow> nat \<Rightarrow> real list \<Rightarrow> fl list \<Rightarrow> fl \<Rightarrow> fl" where
  "pwflat_forward u n t f ef = pwflat_value u n t f ef"

text \<open>
  The class \<open>curve::pwflat\<close> owns two vectors and the extrapolation value. Its
  constructors are the one from an extrapolation value alone, which leaves both vectors
  empty, and the one from \<open>n\<close> and two arrays, which copies \<open>n\<close> elements of each.
\<close>

record curve_pwflat =
  pw_t :: "real list"
  pw_f :: "fl list"
  pw_ef :: fl

definition curve_pwflat_default :: "fl \<Rightarrow> curve_pwflat" where
  "curve_pwflat_default ef = \<lparr>pw_t = [], pw_f = [], pw_ef = ef\<rparr>"

definition curve_pwflat_ctor :: "nat \<Rightarrow> real list \<Rightarrow> fl list \<Rightarrow> fl \<Rightarrow> curve_pwflat" where
  "curve_pwflat_ctor n ts fs ef = \<lparr>pw_t = take n ts, pw_f = take n fs, pw_ef = ef\<rparr>"

definition curve_pwflat_value :: "curve_pwflat \<Rightarrow> real \<Rightarrow> fl" where
  "curve_pwflat_value c u = pwflat_forward u (length (pw_t c)) (pw_t c) (pw_f c) (pw_ef c)"

definition curve_pwflat_integral :: "curve_pwflat \<Rightarrow> real \<Rightarrow> real \<Rightarrow> fl" where
  "curve_pwflat_integral c u t0 =
     pwflat_integral u (length (pw_t c)) (pw_t c) (pw_f c) (pw_ef c)
     - pwflat_integral t0 (length (pw_t c)) (pw_t c) (pw_f c) (pw_ef c)"

text \<open>
  \<open>_back\<close> reads \<open>t.back()\<close> and \<open>f.back()\<close>. On an empty vector \<open>back()\<close> has no defined
  behaviour in C++; the model says so with a value of its own, which is not an error
  that the code returns or raises.
\<close>

datatype 'a outcome = Returns 'a | Undefined

definition curve_pwflat_back :: "curve_pwflat \<Rightarrow> (real \<times> fl) outcome" where
  "curve_pwflat_back c =
     (if pw_t c = [] \<or> pw_f c = [] then Undefined
      else Returns (last (pw_t c), last (pw_f c)))"

text \<open>
  The three classes derived from \<open>curve::base\<close>. A sum refers to its two operands; the
  operands are not changed while the sum is evaluated, so the sum holds their values.
  \<open>base::value\<close> and \<open>base::integral\<close> call the virtual \<open>_value\<close> and \<open>_integral\<close> of the
  class; \<open>integral(u)\<close> is \<open>integral(u, 0)\<close>.
\<close>

datatype curve = Constant fl | PwFlat curve_pwflat | Plus curve curve

fun curve_value :: "curve \<Rightarrow> real \<Rightarrow> fl" where
  "curve_value (Constant f) u = f"
| "curve_value (PwFlat c) u = curve_pwflat_value c u"
| "curve_value (Plus f g) u = curve_value f u + curve_value g u"

fun curve_integral :: "curve \<Rightarrow> real \<Rightarrow> real \<Rightarrow> fl" where
  "curve_integral (Constant f) u t = f * Fin (u - t)"
| "curve_integral (PwFlat c) u t = curve_pwflat_integral c u t"
| "curve_integral (Plus f g) u t = curve_integral f u 0 + curve_integral g u 0"

definition curve_discount :: "curve \<Rightarrow> real \<Rightarrow> real \<Rightarrow> fl" where
  "curve_discount c u t = fexp (- curve_integral c u t)"

text \<open>
  \<open>base::forward(u, t)\<close> returns \<open>forward(u + t)\<close>, which is \<open>forward(u + t, 0)\<close>: the
  function calls itself. A call that does not return has the value \<open>None\<close>.
\<close>

partial_function (option) curve_forward :: "curve \<Rightarrow> real \<Rightarrow> real \<Rightarrow> fl option" where
  "curve_forward c u t = curve_forward c (u + t) 0"

text \<open>
  The class \<open>curve::plus\<close> holds two references. Its constructor from two curves binds
  them to the operands, which the caller keeps alive as long as the sum. Its constructor
  from a curve and a scalar \<open>s\<close> binds \<open>g\<close> to the temporary \<open>constant(s)\<close>, which is
  destroyed when the constructor returns: that sum is left with a reference to an object
  that is no more, and \<open>_value\<close>, which calls \<open>f.value(u)\<close> and \<open>g.value(u)\<close>, has no
  defined behaviour on it. The sums of the datatype \<open>curve\<close> are those whose two
  references are live.
\<close>

datatype 'a reference = Live 'a | Dangling

record curve_plus =
  plus_f :: "curve reference"
  plus_g :: "curve reference"

definition curve_plus_ctor :: "curve \<Rightarrow> curve \<Rightarrow> curve_plus" where
  "curve_plus_ctor f g = \<lparr>plus_f = Live f, plus_g = Live g\<rparr>"

definition curve_plus_ctor_scalar :: "curve \<Rightarrow> fl \<Rightarrow> curve_plus" where
  "curve_plus_ctor_scalar f s = \<lparr>plus_f = Live f, plus_g = Dangling\<rparr>"

definition curve_plus_value :: "curve_plus \<Rightarrow> real \<Rightarrow> fl outcome" where
  "curve_plus_value c u =
     (case plus_f c of
        Dangling \<Rightarrow> Undefined
      | Live f \<Rightarrow>
          (case plus_g c of
             Dangling \<Rightarrow> Undefined
           | Live g \<Rightarrow> Returns (curve_value f u + curve_value g u)))"

section \<open>The integral in the spec's words\<close>

text \<open>
  The spec describes the integral as a sum over the intervals \<open>(t[i-1], t[i]]\<close> that lie
  fully below \<open>u\<close>, that is with \<open>t[i] \<le> u\<close>, where the pillar before the first one is
  \<open>0\<close>, plus the rate of the partial final interval times the remaining time. The rate
  is that of the next pillar, whose index is the number of pillars at or below \<open>u\<close>, or
  \<open>_f\<close> past the last pillar. \<open>fsum g n\<close> adds \<open>g 0\<close>, ..., \<open>g (n - 1)\<close> from the left.
\<close>

primrec fsum :: "(nat \<Rightarrow> fl) \<Rightarrow> nat \<Rightarrow> fl" where
  "fsum g 0 = Fin 0"
| "fsum g (Suc k) = fsum g k + g k"

definition pillar_before :: "real list \<Rightarrow> nat \<Rightarrow> real" where
  "pillar_before t i = (if i = 0 then 0 else t ! (i - 1))"

definition integral_spec :: "real \<Rightarrow> nat \<Rightarrow> real list \<Rightarrow> fl list \<Rightarrow> fl \<Rightarrow> fl" where
  "integral_spec u n t f ef =
     (let full = fsum (\<lambda>i. if t ! i \<le> u then f ! i * Fin (t ! i - pillar_before t i) else Fin 0) n;
          k = length (filter (\<lambda>i. t ! i \<le> u) [0..<n]);
          rate = (if k = n then ef else f ! k);
          remaining = u - pillar_before t k
      in if 0 < remaining then full + rate * Fin remaining else full)"

section \<open>Arithmetic on rates\<close>

lemma fl_plus_simps [simp]:
  "Fin x + Fin y = Fin (x + y)" "NaN + b = NaN" "a + NaN = NaN"
  by (simp_all add: plus_fl_def split: fl.splits)

lemma fl_minus_simps [simp]:
  "Fin x - Fin y = Fin (x - y)" "NaN - b = NaN" "a - NaN = NaN"
  by (simp_all add: minus_fl_def split: fl.splits)

lemma fl_times_simps [simp]:
  "Fin x * Fin y = Fin (x * y)" "NaN * b = NaN" "a * NaN = NaN"
  by (simp_all add: times_fl_def split: fl.splits)

lemma fl_uminus_simps [simp]:
  "- Fin x = Fin (- x)" "- NaN = NaN"
  by (simp_all add: uminus_fl_def)

lemma fl_le_simps [simp]:
  "Fin x \<le> Fin y \<longleftrightarrow> x \<le> y" "\<not> NaN \<le> b" "\<not> a \<le> NaN"
  by (simp_all add: less_eq_fl_def split: fl.splits)

lemma fexp_simps [simp]:
  "fexp (Fin x) = Fin (exp x)" "fexp NaN = NaN"
  by (simp_all add: fexp_def)

section \<open>The searches on sorted ranges\<close>

text \<open>
  On a range that \<open>right\<close> partitions, the bisection returns the partition point.
\<close>

lemma bisect_correct:
  assumes "\<And>i j. first \<le> i \<Longrightarrow> i < j \<Longrightarrow> j < first + len \<Longrightarrow> right (t ! j) \<Longrightarrow> right (t ! i)"
  shows "first \<le> bisect right t first len \<and> bisect right t first len \<le> first + len
       \<and> (\<forall>i. first \<le> i \<and> i < bisect right t first len \<longrightarrow> right (t ! i))
       \<and> (\<forall>j. bisect right t first len \<le> j \<and> j < first + len \<longrightarrow> \<not> right (t ! j))"
  using assms
proof (induction right t first len rule: bisect.induct)
  case (1 right t first len)
  note part = "1.prems"
  show ?case
  proof (cases "len = 0")
    case True
    then have "bisect right t first len = first"
      by (subst bisect.simps) simp
    then show ?thesis using True by auto
  next
    case False
    define half where "half = len div 2"
    define middle where "middle = first + half"
    have hl: "half < len" using False by (simp add: half_def)
    show ?thesis
    proof (cases "right (t ! middle)")
      case True
      have eq: "bisect right t first len = bisect right t (middle + 1) (len - half - 1)"
        using False True by (subst bisect.simps) (simp add: half_def middle_def Let_def)
      have IH: "middle + 1 \<le> bisect right t (middle + 1) (len - half - 1) \<and>
                bisect right t (middle + 1) (len - half - 1) \<le> middle + 1 + (len - half - 1) \<and>
                (\<forall>i. middle + 1 \<le> i \<and> i < bisect right t (middle + 1) (len - half - 1) \<longrightarrow> right (t ! i)) \<and>
                (\<forall>j. bisect right t (middle + 1) (len - half - 1) \<le> j \<and> j < middle + 1 + (len - half - 1) \<longrightarrow> \<not> right (t ! j))"
      proof (rule "1.IH"(1)[OF False half_def middle_def True])
        fix i j assume "middle + 1 \<le> i" "i < j" "j < middle + 1 + (len - half - 1)" "right (t ! j)"
        then show "right (t ! i)" using part[of i j] hl by (simp add: middle_def)
      qed
      have below: "right (t ! i)" if "first \<le> i" "i \<le> middle" for i
      proof (cases "i = middle")
        case True
        then show ?thesis using \<open>right (t ! middle)\<close> by simp
      next
        case False
        then show ?thesis using part[of i middle] that hl \<open>right (t ! middle)\<close>
          by (simp add: middle_def)
      qed
      have end_eq: "middle + 1 + (len - half - 1) = first + len"
        using hl by (simp add: middle_def)
      show ?thesis
        unfolding eq using IH below unfolding end_eq
        by (metis Suc_eq_plus1 le_add1 le_trans middle_def not_less_eq_eq)
    next
      case Fls: False
      have eq: "bisect right t first len = bisect right t first half"
        using False Fls by (subst bisect.simps) (simp add: half_def middle_def Let_def)
      have IH: "first \<le> bisect right t first half \<and> bisect right t first half \<le> first + half \<and>
                (\<forall>i. first \<le> i \<and> i < bisect right t first half \<longrightarrow> right (t ! i)) \<and>
                (\<forall>j. bisect right t first half \<le> j \<and> j < first + half \<longrightarrow> \<not> right (t ! j))"
      proof (rule "1.IH"(2)[OF False half_def middle_def Fls])
        fix i j assume "first \<le> i" "i < j" "j < first + half" "right (t ! j)"
        then show "right (t ! i)" using part[of i j] hl by simp
      qed
      have above: "\<not> right (t ! j)" if "middle \<le> j" "j < first + len" for j
      proof (cases "j = middle")
        case True
        then show ?thesis using Fls by simp
      next
        case False
        then show ?thesis using part[of middle j] that hl Fls
          by (auto simp: middle_def)
      qed
      show ?thesis
        unfolding eq using IH above hl unfolding middle_def
        by (metis add_less_cancel_left le_less_linear less_imp_le_nat order_trans)
    qed
  qed
qed


lemma adjacent_find_end:
  "adjacent_find p t b e = e \<longleftrightarrow> (\<forall>i. b \<le> i \<and> i + 1 < e \<longrightarrow> \<not> p (t ! i) (t ! (i + 1)))"
proof (induction p t b e rule: adjacent_find.induct)
  case (1 p t b e)
  show ?case
  proof (cases "e \<le> b \<or> e \<le> b + 1")
    case True
    then show ?thesis by (subst adjacent_find.simps) auto
  next
    case False
    show ?thesis
    proof (cases "p (t ! b) (t ! (b + 1))")
      case True
      have "adjacent_find p t b e = b"
        using False True by (subst adjacent_find.simps) simp
      then show ?thesis using False True by auto
    next
      case Fls: False
      have eq: "adjacent_find p t b e = adjacent_find p t (b + 1) e"
        using False Fls by (subst adjacent_find.simps) simp
      have "(\<forall>i. b \<le> i \<and> i + 1 < e \<longrightarrow> \<not> p (t ! i) (t ! (i + 1)))
            \<longleftrightarrow> (\<forall>i. b + 1 \<le> i \<and> i + 1 < e \<longrightarrow> \<not> p (t ! i) (t ! (i + 1)))"
      proof
        assume a: "\<forall>i. b + 1 \<le> i \<and> i + 1 < e \<longrightarrow> \<not> p (t ! i) (t ! (i + 1))"
        show "\<forall>i. b \<le> i \<and> i + 1 < e \<longrightarrow> \<not> p (t ! i) (t ! (i + 1))"
        proof (intro allI impI)
          fix i assume "b \<le> i \<and> i + 1 < e"
          then show "\<not> p (t ! i) (t ! (i + 1))"
            using a Fls by (cases "i = b") auto
        qed
      qed auto
      then show ?thesis
        using "1.IH"[OF False Fls] eq by simp
    qed
  qed
qed

lemma monotonic_iff: "monotonic n t \<longleftrightarrow> (\<forall>i. i + 1 < n \<longrightarrow> t ! i < t ! (i + 1))"
  by (simp add: monotonic_def adjacent_find_end not_le)

lemma monotonic_less:
  assumes "monotonic n t" "i < j" "j < n"
  shows "t ! i < t ! j"
  using assms(2,3)
proof (induction j)
  case 0
  then show ?case by simp
next
  case (Suc j)
  have step: "t ! j < t ! Suc j"
    using assms(1) Suc.prems(2) by (simp add: monotonic_iff)
  show ?case
  proof (cases "i = j")
    case True
    then show ?thesis using step by simp
  next
    case False
    then have "t ! i < t ! j" using Suc by simp
    then show ?thesis using step by simp
  qed
qed

lemma lower_bound_monotonic:
  assumes "monotonic n t"
  shows "lower_bound t n u \<le> n
       \<and> (\<forall>i. i < lower_bound t n u \<longrightarrow> t ! i < u)
       \<and> (\<forall>j. lower_bound t n u \<le> j \<and> j < n \<longrightarrow> u \<le> t ! j)"
proof -
  have "0 \<le> bisect (\<lambda>x. x < u) t 0 n \<and> bisect (\<lambda>x. x < u) t 0 n \<le> 0 + n
       \<and> (\<forall>i. 0 \<le> i \<and> i < bisect (\<lambda>x. x < u) t 0 n \<longrightarrow> t ! i < u)
       \<and> (\<forall>j. bisect (\<lambda>x. x < u) t 0 n \<le> j \<and> j < 0 + n \<longrightarrow> \<not> t ! j < u)"
  proof (rule bisect_correct)
    fix i j :: nat assume "0 \<le> i" "i < j" "j < 0 + n" "t ! j < u"
    then show "t ! i < u"
      using monotonic_less[OF assms, of i j] by simp
  qed
  then show ?thesis by (simp add: lower_bound_def not_less)
qed

lemma lower_bound_first:
  assumes "monotonic n t" "i < n" "u \<le> t ! i" "\<forall>j<i. t ! j < u"
  shows "lower_bound t n u = i"
proof -
  note lb = lower_bound_monotonic[OF assms(1), of u]
  have "\<not> i < lower_bound t n u" using lb assms(3) by auto
  moreover have "\<not> lower_bound t n u < i"
    using lb assms(2,4) by (meson le_refl less_trans not_less)
  ultimately show ?thesis by simp
qed

lemma lower_bound_past:
  assumes "monotonic n t" "\<forall>i<n. t ! i < u"
  shows "lower_bound t n u = n"
proof -
  note lb = lower_bound_monotonic[OF assms(1), of u]
  show ?thesis
    using lb assms(2) by (meson le_neq_implies_less le_refl not_less)
qed

section \<open>The kernel's forward rate\<close>

text \<open>
  Claim C1. For strictly increasing pillar times \<open>t[0..n-1]\<close>, rates \<open>f[0..n-1]\<close> and
  an extrapolation value \<open>_f\<close>, the kernel \<open>value(u, n, t, f, _f)\<close> is not-a-number
  when \<open>u < 0\<close>, is \<open>_f\<close> when \<open>n = 0\<close>, is \<open>f[i]\<close> for the first pillar index \<open>i\<close>
  with \<open>t[i] \<ge> u\<close>, and is \<open>_f\<close> when \<open>u\<close> exceeds all pillar times; the
  piecewise-flat curve's \<open>value(u)\<close> is this kernel result over the curve's own arrays.
\<close>

theorem pwflat_value_first_pillar:
  assumes "monotonic n t" and "n \<le> length t" and "n \<le> length f"
  shows "(u < 0 \<longrightarrow> pwflat_value u n t f ef = NaN)
       \<and> (0 \<le> u \<and> n = 0 \<longrightarrow> pwflat_value u n t f ef = ef)
       \<and> (\<forall>i. 0 \<le> u \<and> i < n \<and> u \<le> t ! i \<and> (\<forall>j<i. t ! j < u)
               \<longrightarrow> pwflat_value u n t f ef = f ! i)
       \<and> (0 \<le> u \<and> (\<forall>i<n. t ! i < u) \<longrightarrow> pwflat_value u n t f ef = ef)
       \<and> curve_value (PwFlat c) u
           = pwflat_value u (length (pw_t c)) (pw_t c) (pw_f c) (pw_ef c)"
proof (intro conjI allI impI)
  show "pwflat_value u n t f ef = NaN" if "u < 0"
    using that by (simp add: pwflat_value_def)
  show "pwflat_value u n t f ef = ef" if "0 \<le> u \<and> n = 0"
    using that by (simp add: pwflat_value_def)
  show "pwflat_value u n t f ef = f ! i"
    if "0 \<le> u \<and> i < n \<and> u \<le> t ! i \<and> (\<forall>j<i. t ! j < u)" for i
    using that lower_bound_first[OF assms(1), of i u]
    by (auto simp: pwflat_value_def Let_def)
  show "pwflat_value u n t f ef = ef" if "0 \<le> u \<and> (\<forall>i<n. t ! i < u)"
    using that lower_bound_past[OF assms(1), of u]
    by (auto simp: pwflat_value_def Let_def)
  show "curve_value (PwFlat c) u
           = pwflat_value u (length (pw_t c)) (pw_t c) (pw_f c) (pw_ef c)"
    by (simp add: curve_pwflat_value_def pwflat_forward_def)
qed

theorem pwflat_value_first_pillar_witness:
  "monotonic 3 [1, 2, 3]
   \<and> pwflat_value (- 1 / 10) 3 [1, 2, 3] [Fin 2, Fin 3, Fin 4] NaN = NaN
   \<and> pwflat_value 0 0 [] [] (Fin 5) = Fin 5
   \<and> pwflat_value (11 / 10) 3 [1, 2, 3] [Fin 2, Fin 3, Fin 4] NaN = Fin 3
   \<and> pwflat_value (31 / 10) 3 [1, 2, 3] [Fin 2, Fin 3, Fin 4] (Fin 5) = Fin 5"
proof -
  have m: "monotonic 3 [1, 2, 3]"
    by (simp add: monotonic_def adjacent_find.simps)
  have m0: "monotonic 0 []"
    by (simp add: monotonic_def adjacent_find.simps)
  have lt: "3 \<le> length [1, 2, 3 :: real]" and lf: "3 \<le> length [Fin 2, Fin 3, Fin 4]"
    by simp_all
  note th = pwflat_value_first_pillar[OF m lt lf]
  have a: "pwflat_value (- 1 / 10) 3 [1, 2, 3] [Fin 2, Fin 3, Fin 4] NaN = NaN"
    using th[of "- 1 / 10" NaN] by simp
  have b: "pwflat_value 0 0 [] [] (Fin 5) = Fin 5"
    using pwflat_value_first_pillar[OF m0, of "[]" 0 "Fin 5"] by simp
  have c: "pwflat_value (11 / 10) 3 [1, 2, 3] [Fin 2, Fin 3, Fin 4] NaN = Fin 3"
  proof -
    have "(0::real) \<le> 11 / 10 \<and> (1::nat) < 3 \<and> 11 / 10 \<le> [1, 2, 3 :: real] ! 1
          \<and> (\<forall>j<1. [1, 2, 3 :: real] ! j < 11 / 10)
          \<longrightarrow> pwflat_value (11 / 10) 3 [1, 2, 3] [Fin 2, Fin 3, Fin 4] NaN
              = [Fin 2, Fin 3, Fin 4] ! 1"
      using th[of "11 / 10" NaN] by blast
    then show ?thesis by simp
  qed
  have d: "pwflat_value (31 / 10) 3 [1, 2, 3] [Fin 2, Fin 3, Fin 4] (Fin 5) = Fin 5"
  proof -
    have "\<forall>i<3. [1, 2, 3 :: real] ! i < 31 / 10"
      by (simp add: less_Suc_eq numeral_3_eq_3)
    moreover have "(0::real) \<le> 31 / 10 \<and> (\<forall>i<3. [1, 2, 3 :: real] ! i < 31 / 10)
          \<longrightarrow> pwflat_value (31 / 10) 3 [1, 2, 3] [Fin 2, Fin 3, Fin 4] (Fin 5) = Fin 5"
      using th[of "31 / 10" "Fin 5"] by blast
    ultimately show ?thesis by simp
  qed
  show ?thesis using m a b c d by simp
qed

text \<open>
  Claim C10. For every \<open>u\<close> and every two spans \<open>t\<close>, \<open>f\<close> of different sizes, the
  overload of the kernel \<open>value\<close> on spans is not-a-number, whatever the spans hold: the
  guard returns before the kernel looks at either of them.
\<close>

theorem pwflat_value_span_mismatch:
  "length t \<noteq> length f \<Longrightarrow> pwflat_value_span u t f ef = NaN"
  by (simp add: pwflat_value_span_def)

theorem pwflat_value_span_mismatch_witness:
  "length [1 :: real] \<noteq> length ([] :: fl list) \<and> pwflat_value_span 0 [1] [] (Fin 5) = NaN"
  using pwflat_value_span_mismatch[of "[1]" "[]" 0 "Fin 5"] by simp

section \<open>The curve interface\<close>

text \<open>
  Claim C3. For every two curves \<open>f\<close>, \<open>g\<close> and all \<open>u\<close>, \<open>t\<close>, the integral of the
  sum curve is \<open>f.integral(u, 0) + g.integral(u, 0)\<close>: the lower bound \<open>t\<close> is ignored,
  so the result is the same for every lower bound.
\<close>

theorem curve_plus_integral:
  "curve_integral (Plus f g) u t = curve_integral f u 0 + curve_integral g u 0
   \<and> curve_integral (Plus f g) u t = curve_integral (Plus f g) u t'"
  by simp

text \<open>
  Claim C4 says that \<open>forward(u, t)\<close> returns \<open>value(u + t)\<close> and that the call
  terminates. The code of \<open>base::forward\<close> calls \<open>forward(u + t)\<close>, that is itself
  with the offset \<open>0\<close>, and not \<open>value(u + t)\<close>: for every curve and all \<open>u\<close>, \<open>t\<close> the
  call does not return.
\<close>

theorem curve_forward_never_returns: "curve_forward c u t = None"
proof (cases "curve_forward c u t")
  case None
  then show ?thesis .
next
  case (Some y)
  have False
  proof (rule curve_forward.raw_induct[where P = "\<lambda>c u t y. False", OF _ Some])
    fix g :: "curve \<Rightarrow> real \<Rightarrow> real \<Rightarrow> fl option" and c u t y
    assume "\<And>c u t y. g c u t = Some y \<Longrightarrow> False" and "g c (u + t) 0 = Some y"
    then show False by blast
  qed
  then show ?thesis ..
qed

section \<open>The kernel's integral\<close>

lemma fl_add_zero [simp]: "a + Fin 0 = a"
  by (cases a) simp_all

lemma integral_loop_inv:
  assumes "i \<le> n" and "\<forall>j<i. t ! j \<le> u"
  shows "\<exists>k. integral_loop u n t f i
               (fsum (\<lambda>i. f ! i * Fin (t ! i - pillar_before t i)) i) (pillar_before t i)
             = (k, fsum (\<lambda>i. f ! i * Fin (t ! i - pillar_before t i)) k, pillar_before t k)
           \<and> i \<le> k \<and> k \<le> n \<and> (\<forall>j<k. t ! j \<le> u) \<and> (k < n \<longrightarrow> u < t ! k)"
  using assms
proof (induction "n - i" arbitrary: i)
  case 0
  then have "i = n" by simp
  then have "integral_loop u n t f i
               (fsum (\<lambda>i. f ! i * Fin (t ! i - pillar_before t i)) i) (pillar_before t i)
             = (i, fsum (\<lambda>i. f ! i * Fin (t ! i - pillar_before t i)) i, pillar_before t i)"
    by (subst integral_loop.simps) simp
  then show ?case using \<open>i = n\<close> "0.prems" by auto
next
  case (Suc d)
  then have lt: "i < n" by simp
  show ?case
  proof (cases "t ! i \<le> u")
    case True
    have eq: "integral_loop u n t f i
               (fsum (\<lambda>i. f ! i * Fin (t ! i - pillar_before t i)) i) (pillar_before t i)
        = integral_loop u n t f (Suc i)
               (fsum (\<lambda>i. f ! i * Fin (t ! i - pillar_before t i)) (Suc i)) (pillar_before t (Suc i))"
      using lt True by (subst integral_loop.simps) (simp add: pillar_before_def)
    have d: "d = n - Suc i" using Suc.hyps(2) by simp
    have le: "Suc i \<le> n" using lt by simp
    have all: "\<forall>j<Suc i. t ! j \<le> u"
      using Suc.prems(2) True by (simp add: less_Suc_eq)
    obtain k where k: "integral_loop u n t f (Suc i)
               (fsum (\<lambda>i. f ! i * Fin (t ! i - pillar_before t i)) (Suc i)) (pillar_before t (Suc i))
             = (k, fsum (\<lambda>i. f ! i * Fin (t ! i - pillar_before t i)) k, pillar_before t k)"
           "Suc i \<le> k" "k \<le> n" "\<forall>j<k. t ! j \<le> u" "k < n \<longrightarrow> u < t ! k"
      using Suc.hyps(1)[OF d le all] by blast
    show ?thesis
      unfolding eq using k by (intro exI[of _ k]) simp
  next
    case False
    have "integral_loop u n t f i
               (fsum (\<lambda>i. f ! i * Fin (t ! i - pillar_before t i)) i) (pillar_before t i)
             = (i, fsum (\<lambda>i. f ! i * Fin (t ! i - pillar_before t i)) i, pillar_before t i)"
      using False by (subst integral_loop.simps) simp
    then show ?thesis using False lt Suc.prems by (intro exI[of _ i]) simp
  qed
qed


lemma count_below:
  assumes "k \<le> n" and "\<forall>j<k. P j" and "\<forall>j. k \<le> j \<and> j < n \<longrightarrow> \<not> P j"
  shows "length (filter P [0..<n]) = k"
proof -
  have split: "[0..<n] = [0..<k] @ [k..<n]"
    using assms(1) by (metis le_add_diff_inverse upt_add_eq_append zero_le)
  have "filter P [0..<k] = [0..<k]"
    using assms(2) by (intro filter_True) simp
  moreover have "filter P [k..<n] = []"
    using assms(3) by (intro filter_False) simp
  ultimately show ?thesis by (simp add: split)
qed

lemma fsum_below:
  assumes "k \<le> n" and "\<forall>j<k. P j" and "\<forall>j. k \<le> j \<and> j < n \<longrightarrow> \<not> P j"
  shows "fsum (\<lambda>i. if P i then g i else Fin 0) n = fsum g k"
  using assms(1,3)
proof (induction n)
  case 0
  then show ?case by simp
next
  case (Suc n)
  show ?case
  proof (cases "k = Suc n")
    case True
    have "fsum (\<lambda>i. if P i then g i else Fin 0) m = fsum g m" if "m \<le> k" for m
      using that assms(2) by (induction m) simp_all
    then have "fsum (\<lambda>i. if P i then g i else Fin 0) k = fsum g k" by simp
    then show ?thesis using True by blast
  next
    case False
    then have "k \<le> n" using Suc.prems(1) by simp
    moreover have "\<forall>j. k \<le> j \<and> j < n \<longrightarrow> \<not> P j" using Suc.prems(2) by simp
    ultimately have "fsum (\<lambda>i. if P i then g i else Fin 0) n = fsum g k"
      by (rule Suc.IH)
    moreover have "\<not> P n" using Suc.prems(2) \<open>k \<le> n\<close> by simp
    ultimately show ?thesis by simp
  qed
qed

lemma pwflat_integral_spec:
  assumes "monotonic n t" and "0 < u" and "0 < n"
  shows "pwflat_integral u n t f ef = integral_spec u n t f ef"
proof -
  obtain k where k: "integral_loop u n t f 0 (Fin 0) 0
             = (k, fsum (\<lambda>i. f ! i * Fin (t ! i - pillar_before t i)) k, pillar_before t k)"
           "k \<le> n" "\<forall>j<k. t ! j \<le> u" "k < n \<longrightarrow> u < t ! k"
    using integral_loop_inv[of 0 n t u f] by (auto simp: pillar_before_def)
  have above: "\<forall>j. k \<le> j \<and> j < n \<longrightarrow> \<not> t ! j \<le> u"
  proof (intro allI impI)
    fix j assume j: "k \<le> j \<and> j < n"
    then have "u < t ! k" using k(4) by simp
    moreover have "t ! k \<le> t ! j"
      using monotonic_less[OF assms(1), of k j] j by (cases "k = j") auto
    ultimately show "\<not> t ! j \<le> u" by simp
  qed
  have cnt: "length (filter (\<lambda>i. t ! i \<le> u) [0..<n]) = k"
    using count_below[OF k(2), of "\<lambda>i. t ! i \<le> u"] k(3) above by simp
  have full: "fsum (\<lambda>i. if t ! i \<le> u then f ! i * Fin (t ! i - pillar_before t i) else Fin 0) n
              = fsum (\<lambda>i. f ! i * Fin (t ! i - pillar_before t i)) k"
    using fsum_below[OF k(2), of "\<lambda>i. t ! i \<le> u"] k(3) above by simp
  show ?thesis
    using assms(2,3) by (simp add: pwflat_integral_def integral_spec_def k(1) cnt full Let_def)
qed


lemma scenario_integrals:
  "pwflat_integral 0 3 [1, 2, 3] [Fin 2, Fin 3, Fin 4] NaN = Fin 0"
  "pwflat_integral (1 / 2) 3 [1, 2, 3] [Fin 2, Fin 3, Fin 4] NaN = Fin 1"
  "pwflat_integral 1 3 [1, 2, 3] [Fin 2, Fin 3, Fin 4] NaN = Fin 2"
  "pwflat_integral (3 / 2) 3 [1, 2, 3] [Fin 2, Fin 3, Fin 4] NaN = Fin (7 / 2)"
  "pwflat_integral 2 3 [1, 2, 3] [Fin 2, Fin 3, Fin 4] NaN = Fin 5"
  "pwflat_integral 3 3 [1, 2, 3] [Fin 2, Fin 3, Fin 4] NaN = Fin 9"
  "pwflat_integral (7 / 2) 3 [1, 2, 3] [Fin 2, Fin 3, Fin 4] (Fin 5) = Fin (23 / 2)"
  by (simp_all add: pwflat_integral_def integral_loop.simps)

text \<open>
  Claim C2. For strictly increasing pillar times the kernel \<open>integral(u, n, t, f, _f)\<close>
  is not-a-number when \<open>u < 0\<close>, is \<open>0\<close> when \<open>u = 0\<close>, is \<open>u * _f\<close> when \<open>n = 0\<close>, and is
  otherwise the piecewise-constant antiderivative \<open>integral_spec\<close>: the sum of
  \<open>f[i] * (t[i] - t[i-1])\<close> over the intervals that lie fully below \<open>u\<close>, plus the rate
  of the partial final interval times the remaining time. With \<open>t = [1, 2, 3]\<close> and
  \<open>f = [2, 3, 4]\<close> the integrals at \<open>0\<close>, \<open>0.5\<close>, \<open>1\<close>, \<open>1.5\<close>, \<open>2\<close>, \<open>3\<close> are \<open>0\<close>, \<open>1\<close>, \<open>2\<close>,
  \<open>3.5\<close>, \<open>5\<close>, \<open>9\<close>, and with extrapolation \<open>5\<close> the integral at \<open>3.5\<close> is \<open>11.5\<close>.
\<close>

theorem pwflat_integral_antiderivative:
  assumes "monotonic n t" and "n \<le> length t" and "n \<le> length f"
  shows "(u < 0 \<longrightarrow> pwflat_integral u n t f ef = NaN)
       \<and> (u = 0 \<longrightarrow> pwflat_integral u n t f ef = Fin 0)
       \<and> (0 < u \<and> n = 0 \<longrightarrow> pwflat_integral u n t f ef = Fin u * ef)
       \<and> (0 < u \<and> 0 < n \<longrightarrow> pwflat_integral u n t f ef = integral_spec u n t f ef)
       \<and> pwflat_integral 0 3 [1, 2, 3] [Fin 2, Fin 3, Fin 4] NaN = Fin 0
       \<and> pwflat_integral (1 / 2) 3 [1, 2, 3] [Fin 2, Fin 3, Fin 4] NaN = Fin 1
       \<and> pwflat_integral 1 3 [1, 2, 3] [Fin 2, Fin 3, Fin 4] NaN = Fin 2
       \<and> pwflat_integral (3 / 2) 3 [1, 2, 3] [Fin 2, Fin 3, Fin 4] NaN = Fin (7 / 2)
       \<and> pwflat_integral 2 3 [1, 2, 3] [Fin 2, Fin 3, Fin 4] NaN = Fin 5
       \<and> pwflat_integral 3 3 [1, 2, 3] [Fin 2, Fin 3, Fin 4] NaN = Fin 9
       \<and> pwflat_integral (7 / 2) 3 [1, 2, 3] [Fin 2, Fin 3, Fin 4] (Fin 5) = Fin (23 / 2)"
proof -
  have "pwflat_integral u n t f ef = NaN" if "u < 0"
    using that by (simp add: pwflat_integral_def)
  moreover have "pwflat_integral u n t f ef = Fin 0" if "u = 0"
    using that by (simp add: pwflat_integral_def)
  moreover have "pwflat_integral u n t f ef = Fin u * ef" if "0 < u \<and> n = 0"
    using that by (simp add: pwflat_integral_def)
  moreover have "pwflat_integral u n t f ef = integral_spec u n t f ef" if "0 < u \<and> 0 < n"
    using that pwflat_integral_spec[OF assms(1)] by simp
  ultimately show ?thesis
    using scenario_integrals by blast
qed

theorem pwflat_integral_antiderivative_witness:
  "monotonic 3 [1, 2, 3]
   \<and> pwflat_integral (- 1) 3 [1, 2, 3] [Fin 2, Fin 3, Fin 4] (Fin 5) = NaN
   \<and> pwflat_integral 0 0 [] [] NaN = Fin 0
   \<and> pwflat_integral 2 0 [] [] (Fin 5) = Fin 10
   \<and> pwflat_integral (7 / 2) 3 [1, 2, 3] [Fin 2, Fin 3, Fin 4] (Fin 5)
       = integral_spec (7 / 2) 3 [1, 2, 3] [Fin 2, Fin 3, Fin 4] (Fin 5)
   \<and> integral_spec (7 / 2) 3 [1, 2, 3] [Fin 2, Fin 3, Fin 4] (Fin 5) = Fin (23 / 2)"
proof -
  have m: "monotonic 3 [1, 2, 3]"
    by (simp add: monotonic_def adjacent_find.simps)
  have m0: "monotonic 0 []"
    by (simp add: monotonic_def adjacent_find.simps)
  have lt: "3 \<le> length [1, 2, 3 :: real]" and lf: "3 \<le> length [Fin 2, Fin 3, Fin 4]"
    by simp_all
  note th = pwflat_integral_antiderivative[OF m lt lf]
  note th0 = pwflat_integral_antiderivative[OF m0, of "[]"]
  have a: "pwflat_integral (- 1) 3 [1, 2, 3] [Fin 2, Fin 3, Fin 4] (Fin 5) = NaN"
    using th[of "- 1" "Fin 5"] by simp
  have b: "pwflat_integral 0 0 [] [] NaN = Fin 0"
    using th0[of 0 NaN] by simp
  have c: "pwflat_integral 2 0 [] [] (Fin 5) = Fin 10"
    using th0[of 2 "Fin 5"] by simp
  have d: "pwflat_integral (7 / 2) 3 [1, 2, 3] [Fin 2, Fin 3, Fin 4] (Fin 5)
       = integral_spec (7 / 2) 3 [1, 2, 3] [Fin 2, Fin 3, Fin 4] (Fin 5)"
    using th[of "7 / 2" "Fin 5"] by simp
  have e: "integral_spec (7 / 2) 3 [1, 2, 3] [Fin 2, Fin 3, Fin 4] (Fin 5) = Fin (23 / 2)"
    by (simp add: integral_spec_def pillar_before_def numeral_3_eq_3 upt_rec)
  show ?thesis using m a b c d e by simp
qed

section \<open>Construction and the last pillar\<close>

lemma monotonic_take: "n \<le> length ts \<Longrightarrow> monotonic n (take n ts) \<longleftrightarrow> monotonic n ts"
  by (simp add: monotonic_iff)

text \<open>
  Claim C5 says that the constructor of the piecewise-flat curve rejects pillar times
  that are not strictly increasing, and arrays of different lengths, with an error. The
  constructor checks nothing: with \<open>n = 2\<close>, times \<open>[1, 1]\<close> and rates \<open>[2, 3]\<close> it builds a
  curve that holds the times \<open>[1, 1]\<close>, which are not strictly increasing.
\<close>

theorem curve_pwflat_ctor_counterexample:
  "curve_pwflat_ctor 2 [1, 1] [Fin 2, Fin 3] NaN
     = \<lparr>pw_t = [1, 1], pw_f = [Fin 2, Fin 3], pw_ef = NaN\<rparr>
   \<and> \<not> monotonic (length (pw_t (curve_pwflat_ctor 2 [1, 1] [Fin 2, Fin 3] NaN)))
                   (pw_t (curve_pwflat_ctor 2 [1, 1] [Fin 2, Fin 3] NaN))"
  by (simp add: curve_pwflat_ctor_def monotonic_def adjacent_find.simps)

text \<open>
  Claim C5, amended. The constructor from \<open>n\<close> and two arrays of at least \<open>n\<close> elements
  never rejects: it builds the curve that holds the first \<open>n\<close> times, the first \<open>n\<close>
  rates and the extrapolation value, unchanged. Both arrays of the curve have length
  \<open>n\<close>, and the times held are strictly increasing exactly when the \<open>n\<close> times supplied
  are.
\<close>

theorem curve_pwflat_ctor_copies:
  assumes "n \<le> length ts" and "n \<le> length fs"
  shows "curve_pwflat_ctor n ts fs ef = \<lparr>pw_t = take n ts, pw_f = take n fs, pw_ef = ef\<rparr>
       \<and> length (pw_t (curve_pwflat_ctor n ts fs ef)) = n
       \<and> length (pw_f (curve_pwflat_ctor n ts fs ef)) = n
       \<and> (monotonic (length (pw_t (curve_pwflat_ctor n ts fs ef)))
                     (pw_t (curve_pwflat_ctor n ts fs ef))
            \<longleftrightarrow> monotonic n ts)"
  using assms by (simp add: curve_pwflat_ctor_def monotonic_take)

theorem curve_pwflat_ctor_copies_witness:
  "(2::nat) \<le> length [1, 2, 5 :: real] \<and> (2::nat) \<le> length [Fin 2, Fin 3]
   \<and> curve_pwflat_ctor 2 [1, 2, 5] [Fin 2, Fin 3] NaN
       = \<lparr>pw_t = [1, 2], pw_f = [Fin 2, Fin 3], pw_ef = NaN\<rparr>
   \<and> monotonic (length (pw_t (curve_pwflat_ctor 2 [1, 2, 5] [Fin 2, Fin 3] NaN)))
                 (pw_t (curve_pwflat_ctor 2 [1, 2, 5] [Fin 2, Fin 3] NaN))"
proof -
  have lt: "(2::nat) \<le> length [1, 2, 5 :: real]" and lf: "(2::nat) \<le> length [Fin 2, Fin 3]"
    by simp_all
  have m: "monotonic 2 [1, 2, 5]"
    by (simp add: monotonic_def adjacent_find.simps)
  note th = curve_pwflat_ctor_copies[OF lt lf, of NaN]
  have a: "curve_pwflat_ctor 2 [1, 2, 5] [Fin 2, Fin 3] NaN
       = \<lparr>pw_t = [1, 2], pw_f = [Fin 2, Fin 3], pw_ef = NaN\<rparr>"
    using th by simp
  have b: "monotonic (length (pw_t (curve_pwflat_ctor 2 [1, 2, 5] [Fin 2, Fin 3] NaN)))
                 (pw_t (curve_pwflat_ctor 2 [1, 2, 5] [Fin 2, Fin 3] NaN))"
    using th m by blast
  show ?thesis
    using lt lf a b by blast
qed

text \<open>
  Claim C6 says that \<open>back()\<close> on a piecewise-flat curve without pillars yields an
  "empty curve" error. The code has no such result: \<open>_back\<close> reads the last elements of
  both vectors without a test, which on the curve built from an extrapolation value
  alone is not defined.
\<close>

theorem curve_pwflat_back_counterexample:
  "curve_pwflat_back (curve_pwflat_default (Fin 3)) = Undefined"
  by (simp add: curve_pwflat_back_def curve_pwflat_default_def)

text \<open>
  Claim C6, amended. On a piecewise-flat curve with at least one pillar \<open>back()\<close> returns
  the last pillar, the pair of the last time and the last rate.
\<close>

theorem curve_pwflat_back_last:
  assumes "pw_t c \<noteq> []" and "pw_f c \<noteq> []"
  shows "curve_pwflat_back c = Returns (last (pw_t c), last (pw_f c))"
  using assms by (simp add: curve_pwflat_back_def)

theorem curve_pwflat_back_last_witness:
  "pw_t (curve_pwflat_ctor 3 [1, 2, 3] [Fin 2, Fin 3, Fin 4] NaN) \<noteq> []
   \<and> pw_f (curve_pwflat_ctor 3 [1, 2, 3] [Fin 2, Fin 3, Fin 4] NaN) \<noteq> []
   \<and> curve_pwflat_back (curve_pwflat_ctor 3 [1, 2, 3] [Fin 2, Fin 3, Fin 4] NaN)
       = Returns (3, Fin 4)"
proof -
  have t: "pw_t (curve_pwflat_ctor 3 [1, 2, 3] [Fin 2, Fin 3, Fin 4] NaN) \<noteq> []"
    and f: "pw_f (curve_pwflat_ctor 3 [1, 2, 3] [Fin 2, Fin 3, Fin 4] NaN) \<noteq> []"
    by (simp_all add: curve_pwflat_ctor_def)
  show ?thesis
    using curve_pwflat_back_last[OF t f] t f by (simp add: curve_pwflat_ctor_def)
qed

section \<open>Negative query times\<close>

text \<open>
  Claim C8 says that \<open>value(u)\<close> is not-a-number for every curve and every \<open>u < 0\<close>, and
  that it never raises a fault. The constant curve ignores \<open>u\<close>: with rate \<open>1\<close> its value
  at \<open>-1\<close> is \<open>1\<close>. And the sum built from a curve and a scalar refers to a temporary
  that is destroyed: its value is not defined, at \<open>-1\<close> as anywhere.
\<close>

theorem curve_value_negative_counterexample:
  "curve_value (Constant (Fin 1)) (- 1) = Fin 1
   \<and> curve_value (Constant (Fin 1)) (- 1) \<noteq> NaN
   \<and> curve_plus_value (curve_plus_ctor_scalar (Constant (Fin 1)) (Fin 2)) (- 1) = Undefined"
  by (simp add: curve_plus_value_def curve_plus_ctor_scalar_def)

text \<open>
  Claim C8, amended. For every \<open>u < 0\<close> the kernel \<open>value\<close> and the value of a
  piecewise-flat curve are not-a-number. A constant curve returns its rate at every
  \<open>u\<close>, negative or not. A sum built from two curves that are alive returns
  \<open>f.value(u) + g.value(u)\<close> at every \<open>u\<close>, which is not-a-number as soon as the value of
  one operand is.
\<close>

theorem curve_value_negative:
  assumes "u < 0"
  shows "pwflat_value u n t f ef = NaN
       \<and> curve_value (PwFlat c) u = NaN
       \<and> (\<forall>v. curve_value (Constant r) v = r)
       \<and> (\<forall>v. curve_plus_value (curve_plus_ctor a b) v
                 = Returns (curve_value a v + curve_value b v))
       \<and> (\<forall>v. curve_value (Plus a b) v = curve_value a v + curve_value b v)
       \<and> (curve_value a u = NaN \<or> curve_value b u = NaN \<longrightarrow> curve_value (Plus a b) u = NaN)"
proof (intro conjI allI impI)
  show "pwflat_value u n t f ef = NaN"
    using assms by (simp add: pwflat_value_def)
  show "curve_value (PwFlat c) u = NaN"
    using assms by (simp add: curve_pwflat_value_def pwflat_forward_def pwflat_value_def)
  show "curve_value (Constant r) v = r" for v
    by simp
  show "curve_plus_value (curve_plus_ctor a b) v = Returns (curve_value a v + curve_value b v)" for v
    by (simp add: curve_plus_value_def curve_plus_ctor_def)
  show "curve_value (Plus a b) v = curve_value a v + curve_value b v" for v
    by simp
  show "curve_value (Plus a b) u = NaN" if "curve_value a u = NaN \<or> curve_value b u = NaN"
    using that by auto
qed

theorem curve_value_negative_witness:
  "(- 1 :: real) < 0
   \<and> pwflat_value (- 1) 3 [1, 2, 3] [Fin 2, Fin 3, Fin 4] (Fin 5) = NaN
   \<and> curve_value (PwFlat (curve_pwflat_ctor 3 [1, 2, 3] [Fin 2, Fin 3, Fin 4] (Fin 5))) (- 1) = NaN
   \<and> curve_value (Constant (Fin 1)) (- 1) = Fin 1
   \<and> curve_value (Constant (Fin 1)) 2 = Fin 1
   \<and> curve_plus_value (curve_plus_ctor (Constant (Fin 1)) (Constant (Fin 3))) (- 1)
       = Returns (Fin 4)
   \<and> curve_value (Plus (Constant (Fin 1)) (Constant (Fin 3))) (- 1) = Fin 4
   \<and> curve_value (PwFlat (curve_pwflat_default (Fin 5))) (- 1) = NaN
   \<and> curve_value (Plus (Constant (Fin 1)) (PwFlat (curve_pwflat_default (Fin 5)))) (- 1) = NaN"
proof -
  have neg: "(- 1 :: real) < 0" by simp
  note th = curve_value_negative[OF neg]
  have a: "pwflat_value (- 1) 3 [1, 2, 3] [Fin 2, Fin 3, Fin 4] (Fin 5) = NaN"
    using th[of 3 "[1, 2, 3]" "[Fin 2, Fin 3, Fin 4]" "Fin 5"] by blast
  have b: "curve_value (PwFlat (curve_pwflat_ctor 3 [1, 2, 3] [Fin 2, Fin 3, Fin 4] (Fin 5))) (- 1) = NaN"
    using th[where c = "curve_pwflat_ctor 3 [1, 2, 3] [Fin 2, Fin 3, Fin 4] (Fin 5)"] by blast
  have c: "curve_value (Constant (Fin 1)) (- 1) = Fin 1"
    and c': "curve_value (Constant (Fin 1)) 2 = Fin 1"
    using th[where r = "Fin 1"] by blast+
  have d: "curve_plus_value (curve_plus_ctor (Constant (Fin 1)) (Constant (Fin 3))) (- 1)
       = Returns (Fin 4)"
    using th[where a = "Constant (Fin 1)" and b = "Constant (Fin 3)"] by simp
  have d': "curve_value (Plus (Constant (Fin 1)) (Constant (Fin 3))) (- 1) = Fin 4"
    using th[where a = "Constant (Fin 1)" and b = "Constant (Fin 3)"] by simp
  have e: "curve_value (PwFlat (curve_pwflat_default (Fin 5))) (- 1) = NaN"
    using th[where c = "curve_pwflat_default (Fin 5)"] by blast
  have f: "curve_value (Plus (Constant (Fin 1)) (PwFlat (curve_pwflat_default (Fin 5)))) (- 1) = NaN"
    using th[where a = "Constant (Fin 1)" and b = "PwFlat (curve_pwflat_default (Fin 5))"] e by blast
  show ?thesis using neg a b c c' d d' e f by blast
qed

section \<open>Discount factors\<close>

text \<open>
  Claim C9 says that, for every curve, \<open>discount(u, t)\<close> is \<open>exp(-integral(u, t))\<close>, is
  never negative and is \<open>1\<close> when \<open>u = t\<close>. The sum of the constant curves \<open>1\<close> and \<open>3\<close>
  integrates both from \<open>0\<close>, so its discount at \<open>u = t = 1\<close> is \<open>exp(-4)\<close>; and the discount
  of a curve whose integral is not-a-number, such as the pillar-less curve with no
  extrapolation value, is not-a-number, which is not at least \<open>0\<close>.
\<close>

theorem curve_discount_counterexample:
  "curve_discount (Plus (Constant (Fin 1)) (Constant (Fin 3))) 1 1 \<noteq> Fin 1
   \<and> \<not> Fin 0 \<le> curve_discount (PwFlat (curve_pwflat_default NaN)) 1 0"
  by (simp add: curve_discount_def curve_pwflat_integral_def curve_pwflat_default_def
      pwflat_integral_def)

text \<open>
  Claim C9, amended. For every curve and all \<open>u\<close>, \<open>t\<close>, \<open>discount(u, t)\<close> is
  \<open>exp(-integral(u, t))\<close>, and so is the kernel's discount of the kernel's integral. It
  is at least \<open>0\<close> when the integral is a number and not-a-number when the integral is.
  \<open>discount(u, u)\<close> is \<open>1\<close> for a constant curve whose rate is a number and for a
  piecewise-flat curve whose kernel integral at \<open>u\<close> is a number. For a sum,
  \<open>discount(u, t)\<close> is \<open>exp(-(f.integral(u, 0) + g.integral(u, 0)))\<close>, whatever \<open>t\<close> is.
\<close>

theorem curve_discount_exp:
  "curve_discount c u t = fexp (- curve_integral c u t)
   \<and> pwflat_discount u n ts fs ef = fexp (- pwflat_integral u n ts fs ef)
   \<and> (curve_integral c u t \<noteq> NaN \<longrightarrow> Fin 0 \<le> curve_discount c u t)
   \<and> (curve_integral c u t = NaN \<longrightarrow> curve_discount c u t = NaN)
   \<and> (r \<noteq> NaN \<longrightarrow> curve_discount (Constant r) u u = Fin 1)
   \<and> (pwflat_integral u (length (pw_t p)) (pw_t p) (pw_f p) (pw_ef p) \<noteq> NaN
        \<longrightarrow> curve_discount (PwFlat p) u u = Fin 1)
   \<and> curve_discount (Plus a b) u t = fexp (- (curve_integral a u 0 + curve_integral b u 0))"
proof (intro conjI impI)
  show "curve_discount c u t = fexp (- curve_integral c u t)"
    by (simp add: curve_discount_def)
  show "pwflat_discount u n ts fs ef = fexp (- pwflat_integral u n ts fs ef)"
    by (simp add: pwflat_discount_def)
  show "Fin 0 \<le> curve_discount c u t" if "curve_integral c u t \<noteq> NaN"
    using that by (cases "curve_integral c u t") (simp_all add: curve_discount_def)
  show "curve_discount c u t = NaN" if "curve_integral c u t = NaN"
    using that by (simp add: curve_discount_def)
  show "curve_discount (Constant r) u u = Fin 1" if "r \<noteq> NaN"
    using that by (cases r) (simp_all add: curve_discount_def)
  show "curve_discount (PwFlat p) u u = Fin 1"
    if "pwflat_integral u (length (pw_t p)) (pw_t p) (pw_f p) (pw_ef p) \<noteq> NaN"
    using that
    by (cases "pwflat_integral u (length (pw_t p)) (pw_t p) (pw_f p) (pw_ef p)")
       (simp_all add: curve_discount_def curve_pwflat_integral_def)
  show "curve_discount (Plus a b) u t = fexp (- (curve_integral a u 0 + curve_integral b u 0))"
    by (simp add: curve_discount_def)
qed

theorem curve_discount_exp_witness:
  "curve_integral (Constant (Fin 2)) 3 1 \<noteq> NaN
   \<and> Fin 0 \<le> curve_discount (Constant (Fin 2)) 3 1
   \<and> curve_integral (Constant NaN) 3 1 = NaN
   \<and> curve_discount (Constant NaN) 3 1 = NaN
   \<and> curve_discount (Constant (Fin 2)) 3 3 = Fin 1
   \<and> pwflat_integral 2 3 [1, 2, 3] [Fin 2, Fin 3, Fin 4] NaN \<noteq> NaN
   \<and> curve_discount (PwFlat \<lparr>pw_t = [1, 2, 3], pw_f = [Fin 2, Fin 3, Fin 4], pw_ef = NaN\<rparr>) 2 2
       = Fin 1"
proof -
  have a: "curve_integral (Constant (Fin 2)) 3 1 \<noteq> NaN" by simp
  have b: "Fin 0 \<le> curve_discount (Constant (Fin 2)) 3 1"
    using curve_discount_exp[of "Constant (Fin 2)" 3 1] a by blast
  have c: "curve_integral (Constant NaN) 3 1 = NaN" by simp
  have d: "curve_discount (Constant NaN) 3 1 = NaN"
    using curve_discount_exp[of "Constant NaN" 3 1] c by blast
  have e: "curve_discount (Constant (Fin 2)) 3 3 = Fin 1"
    using curve_discount_exp[where r = "Fin 2" and u = 3] by blast
  have f: "pwflat_integral 2 3 [1, 2, 3] [Fin 2, Fin 3, Fin 4] NaN \<noteq> NaN"
    by (simp add: scenario_integrals)
  have g: "curve_discount (PwFlat \<lparr>pw_t = [1, 2, 3], pw_f = [Fin 2, Fin 3, Fin 4], pw_ef = NaN\<rparr>) 2 2
       = Fin 1"
  proof -
    have "pwflat_integral 2 (length (pw_t \<lparr>pw_t = [1, 2, 3], pw_f = [Fin 2, Fin 3, Fin 4], pw_ef = NaN\<rparr>))
            (pw_t \<lparr>pw_t = [1, 2, 3], pw_f = [Fin 2, Fin 3, Fin 4], pw_ef = NaN\<rparr>)
            (pw_f \<lparr>pw_t = [1, 2, 3], pw_f = [Fin 2, Fin 3, Fin 4], pw_ef = NaN\<rparr>)
            (pw_ef \<lparr>pw_t = [1, 2, 3], pw_f = [Fin 2, Fin 3, Fin 4], pw_ef = NaN\<rparr>) \<noteq> NaN"
      using f by (simp add: numeral_3_eq_3)
    then show ?thesis
      using curve_discount_exp[where p = "\<lparr>pw_t = [1, 2, 3], pw_f = [Fin 2, Fin 3, Fin 4], pw_ef = NaN\<rparr>" and u = 2]
      by blast
  qed
  show ?thesis using a b c d e f g by blast
qed

section \<open>Translation in place\<close>

lemma double_simps [simp]:
  "Double x - Double y = Double (round_double (x - y))"
  "- Double x = Double (- x)"
  "(Double x < Double y) = (x < y)"
  "(0::double) = Double 0"
  by (simp_all add: minus_double_def uminus_double_def less_double_def zero_double_def)

lemma round_double_binade:
  assumes "2 powi k \<le> \<bar>x\<bar>" and "\<bar>x\<bar> < 2 powi (k + 1)" and "- 1022 \<le> k"
  shows "round_double x = of_int (round_even (x / 2 powi (k - 52))) * 2 powi (k - 52)"
proof -
  have pos: "0 < \<bar>x\<bar>"
    using assms(1) by (smt (verit) zero_less_power_int)
  have p1: "(2::real) powr real_of_int k = 2 powi k"
    using powr_real_of_int'[of 2 k] by simp
  have p2: "(2::real) powr real_of_int (k + 1) = 2 powi (k + 1)"
    using powr_real_of_int'[of 2 "k + 1"] by simp
  have "\<lfloor>log 2 \<bar>x\<bar>\<rfloor> = k"
  proof -
    have "\<lfloor>log 2 \<bar>x\<bar>\<rfloor> = k
          \<longleftrightarrow> 2 powr real_of_int k \<le> \<bar>x\<bar> \<and> \<bar>x\<bar> < 2 powr real_of_int (k + 1)"
      using pos by (intro floor_log_eq_powr_iff) simp_all
    then show ?thesis
      unfolding p1 p2 using assms(1,2) by blast
  qed
  moreover have "max (k - 52) (- 1074) = k - 52" using assms(3) by simp
  moreover have "x \<noteq> 0" using pos by simp
  ultimately show ?thesis by (simp add: round_double_def Let_def)
qed

lemma round_double_0 [simp]: "round_double 0 = 0"
  by (simp add: round_double_def)

lemma round_double_1: "round_double 1 = 1"
  by (subst round_double_binade[where k = 0]) (simp_all add: round_even_def)

lemma round_double_2: "round_double 2 = 2"
  by (subst round_double_binade[where k = 1]) (simp_all add: round_even_def)

lemma round_double_3: "round_double 3 = 3"
  by (subst round_double_binade[where k = 1]) (simp_all add: round_even_def)

lemma round_double_4: "round_double 4 = 4"
  by (subst round_double_binade[where k = 2]) (simp_all add: round_even_def)

lemma round_double_tie: "round_double (1 - 2 ^ 54) = - (2 ^ 54)"
  by (subst round_double_binade[where k = 53]) (simp_all add: round_even_def)

lemma bisect_bounds: "first \<le> bisect right t first len \<and> bisect right t first len \<le> first + len"
proof (induction right t first len rule: bisect.induct)
  case (1 right t first len)
  show ?case
  proof (cases "len = 0")
    case True
    then have "bisect right t first len = first"
      by (subst bisect.simps) simp
    then show ?thesis by simp
  next
    case False
    define half where "half = len div 2"
    define middle where "middle = first + half"
    have hl: "half < len" using False by (simp add: half_def)
    show ?thesis
    proof (cases "right (t ! middle)")
      case True
      have eq: "bisect right t first len = bisect right t (middle + 1) (len - half - 1)"
        using False True by (subst bisect.simps) (simp add: half_def middle_def Let_def)
      show ?thesis
        unfolding eq using "1.IH"(1)[OF False half_def middle_def True] hl
        by (simp add: middle_def)
    next
      case Fls: False
      have eq: "bisect right t first len = bisect right t first half"
        using False Fls by (subst bisect.simps) (simp add: half_def middle_def Let_def)
      show ?thesis
        unfolding eq using "1.IH"(2)[OF False half_def middle_def Fls] hl
        by simp
    qed
  qed
qed

lemma upper_bound_le: "upper_bound t n val \<le> n"
  using bisect_bounds[of 0 "\<lambda>x. \<not> val < x" t n] by (simp add: upper_bound_def)

lemma length_transform_minus [simp]: "length (transform_minus u n p mem) = length mem"
  by (simp add: transform_minus_def)

lemma nth_transform_minus:
  assumes "i < length mem"
  shows "transform_minus u n p mem ! i = (if p \<le> i \<and> i < p + n then mem ! i - u else mem ! i)"
proof -
  consider "i < p" | "p \<le> i" "i < p + n" | "p + n \<le> i" by linarith
  then show ?thesis
  proof cases
    case 1
    then show ?thesis using assms by (simp add: transform_minus_def nth_append)
  next
    case 2
    then have "i - p < length (take n (drop p mem))" using assms by auto
    then show ?thesis using 2 assms by (auto simp: transform_minus_def nth_append)
  next
    case 3
    have lA: "length (take p mem) = p" using 3 assms by simp
    have lB: "length (map (\<lambda>ti. ti - u) (take n (drop p mem))) = n" using 3 assms by simp
    have np: "\<not> i < p" and nn: "\<not> i - p < n" using 3 by simp_all
    have "transform_minus u n p mem ! i = drop (p + n) mem ! (i - p - n)"
      unfolding transform_minus_def nth_append lA lB using np nn by simp
    also have "\<dots> = mem ! (p + n + (i - p - n))"
      using 3 assms by (simp only: nth_drop)
    also have "p + n + (i - p - n) = i" using 3 by simp
    finally show ?thesis using 3 by simp
  qed
qed


lemma upper_bound_partition:
  fixes mem1 :: "'a::{zero, ord} list"
  assumes "p + n \<le> length mem1"
    and "\<forall>i j. p \<le> i \<and> i < j \<and> j < p + n \<and> 0 < mem1 ! i \<longrightarrow> 0 < mem1 ! j"
  shows "(\<forall>i. p \<le> i \<and> i < p + upper_bound (drop p mem1) n 0 \<longrightarrow> \<not> 0 < mem1 ! i)
       \<and> (\<forall>i. p + upper_bound (drop p mem1) n 0 \<le> i \<and> i < p + n \<longrightarrow> 0 < mem1 ! i)"
proof -
  define r where "r = bisect (\<lambda>x. \<not> (0::'a) < x) (drop p mem1) 0 n"
  have nth: "drop p mem1 ! i = mem1 ! (p + i)" if "i < n" for i
    using that assms(1) by simp
  have bc: "0 \<le> r \<and> r \<le> 0 + n
       \<and> (\<forall>i. 0 \<le> i \<and> i < r \<longrightarrow> \<not> 0 < drop p mem1 ! i)
       \<and> (\<forall>j. r \<le> j \<and> j < 0 + n \<longrightarrow> \<not> \<not> 0 < drop p mem1 ! j)"
    unfolding r_def
  proof (rule bisect_correct)
    fix i j :: nat
    assume "0 \<le> i" "i < j" "j < 0 + n" "\<not> 0 < drop p mem1 ! j"
    then show "\<not> 0 < drop p mem1 ! i"
      using assms(2) nth[of i] nth[of j] by (metis add.left_neutral add_less_cancel_left le_add1 less_trans)
  qed
  have lo: "\<not> 0 < mem1 ! i" if "p \<le> i" "i < p + r" for i
  proof -
    have "i - p < r" using that by linarith
    then have "\<not> 0 < drop p mem1 ! (i - p)" using bc by simp
    moreover have "i - p < n" using \<open>i - p < r\<close> bc by simp
    ultimately show ?thesis using nth[of "i - p"] that(1) by simp
  qed
  have hi: "0 < mem1 ! i" if "p + r \<le> i" "i < p + n" for i
  proof -
    have "r \<le> i - p" "i - p < n" using that by linarith+
    then have "0 < drop p mem1 ! (i - p)" using bc by simp
    then show ?thesis using nth[of "i - p"] that \<open>i - p < n\<close> by simp
  qed
  show ?thesis
    using lo hi by (simp add: upper_bound_def r_def)
qed

lemma double_shift_values:
  "Double 1 - Double 1 = Double 0" "Double 2 - Double 1 = Double 1" "Double 4 - Double 1 = Double 3"
  "Double 0 - (- Double 1) = Double 1"
  "Double 1 - (- Double 1) = Double 2" "Double 3 - (- Double 1) = Double 4"
  "Double 1 - Double (2 ^ 54) = Double (- (2 ^ 54))"
  "Double (- (2 ^ 54)) - (- Double (2 ^ 54)) = Double 0"
  "Double 1 - Double 18014398509481984 = Double (- 18014398509481984)"
  "Double (- 18014398509481984) - (- Double 18014398509481984) = Double 0"
  using round_double_1 round_double_2 round_double_3 round_double_4 round_double_tie by simp_all

text \<open>
  Claim C7 says that \<open>translate(u, t)\<close> followed by \<open>translate(-u, result)\<close> on the
  returned sub-view restores every array bit for bit, and that the scoped wrapper
  restores the times. With the doubles \<open>[1, 2, 4]\<close> and \<open>u = 1\<close> the first call leaves
  \<open>[0, 1, 3]\<close> and returns the view of the last two cells; translating that view back
  leaves \<open>[0, 2, 4]\<close>: the time that dropped out of the view stays shifted. With the one
  double \<open>1\<close> and \<open>dt = 2^54\<close> the constructor of the wrapper leaves \<open>1 - 2^54\<close>, which
  rounds to \<open>-2^54\<close>, and its destructor leaves \<open>-2^54 + 2^54 = 0\<close>, not \<open>1\<close>.
\<close>

theorem pwflat_translate_counterexample:
  "pwflat_translate_span (Double 1) (0, 3) [Double 1, Double 2, Double 4]
     = ([Double 0, Double 1, Double 3], (1, 2))
   \<and> fst (pwflat_translate_span (- Double 1)
            (snd (pwflat_translate_span (Double 1) (0, 3) [Double 1, Double 2, Double 4]))
            (fst (pwflat_translate_span (Double 1) (0, 3) [Double 1, Double 2, Double 4])))
       = [Double 0, Double 2, Double 4]
   \<and> fst (pwflat_translate_span (- Double 1)
            (snd (pwflat_translate_span (Double 1) (0, 3) [Double 1, Double 2, Double 4]))
            (fst (pwflat_translate_span (Double 1) (0, 3) [Double 1, Double 2, Double 4])))
       \<noteq> [Double 1, Double 2, Double 4]
   \<and> translate_dtor (fst (translate_ctor (Double (2 ^ 54)) (0, 1) [Double 1]))
                      (snd (translate_ctor (Double (2 ^ 54)) (0, 1) [Double 1])) = [Double 0]
   \<and> translate_dtor (fst (translate_ctor (Double (2 ^ 54)) (0, 1) [Double 1]))
                      (snd (translate_ctor (Double (2 ^ 54)) (0, 1) [Double 1])) \<noteq> [Double 1]"
proof -
  have a: "pwflat_translate_span (Double 1) (0, 3) [Double 1, Double 2, Double 4]
     = ([Double 0, Double 1, Double 3], (1, 2))"
    unfolding pwflat_translate_span_def pwflat_translate_def transform_minus_def upper_bound_def
    by (simp add: double_shift_values bisect.simps Let_def del: double_simps(1,2))
  have b: "fst (pwflat_translate_span (- Double 1) (Suc 0, 2) [Double 0, Double 1, Double 3])
            = [Double 0, Double 2, Double 4]"
    unfolding pwflat_translate_span_def pwflat_translate_def transform_minus_def
    by (simp add: double_shift_values Let_def del: double_simps(1,2))
  have c: "translate_ctor (Double (2 ^ 54)) (0, 1) [Double 1]
            = (\<lparr>tr_dt = Double (2 ^ 54), tr_n = 0, tr_t = (0, 1)\<rparr>, [Double (- (2 ^ 54))])"
    unfolding translate_ctor_def pwflat_translate_span_def pwflat_translate_def
      transform_minus_def upper_bound_def
    by (simp add: double_shift_values bisect.simps Let_def del: double_simps(1,2))
  have d: "translate_dtor \<lparr>tr_dt = Double (2 ^ 54), tr_n = 0, tr_t = (0, 1)\<rparr> [Double (- (2 ^ 54))]
            = [Double 0]"
    unfolding translate_dtor_def pwflat_translate_span_def pwflat_translate_def transform_minus_def
    by (simp add: double_shift_values Let_def del: double_simps(1,2))
  have ab: "fst (pwflat_translate_span (- Double 1)
            (snd (pwflat_translate_span (Double 1) (0, 3) [Double 1, Double 2, Double 4]))
            (fst (pwflat_translate_span (Double 1) (0, 3) [Double 1, Double 2, Double 4])))
       = [Double 0, Double 2, Double 4]"
    unfolding a using b by simp
  have cd: "translate_dtor (fst (translate_ctor (Double (2 ^ 54)) (0, 1) [Double 1]))
                      (snd (translate_ctor (Double (2 ^ 54)) (0, 1) [Double 1])) = [Double 0]"
    unfolding c using d by simp
  have ne1: "[Double 0, Double 2, Double 4] \<noteq> [Double 1, Double 2, Double 4]"
    and ne2: "[Double 0] \<noteq> [Double 1]"
    by simp_all
  show ?thesis
    unfolding ab cd using a ne1 ne2 by blast
qed

text \<open>
  Claim C7, amended. For every array of times, of any time type, every span of it and
  every shift \<open>u\<close>: \<open>translate(u, t)\<close> replaces each time \<open>x\<close> of the span by \<open>x - u\<close> and
  returns as sub-view a tail of the span, which holds exactly the shifted times \<open>> 0\<close>
  when those come after the others in the span. Followed by \<open>translate(-u, result)\<close> on
  the sub-view, it leaves \<open>(x - u) - (-u)\<close> in the cells of the sub-view and \<open>x - u\<close> in the
  cells of the span before it. Followed by \<open>translate(-u, t)\<close> on the whole span, it
  leaves \<open>(x - u) - (-u)\<close> in every cell of the span. The scoped wrapper exposes the same
  sub-view, and its destructor translates the whole span by \<open>-dt\<close>: it leaves
  \<open>(x - dt) - (-dt)\<close> in every cell of the span, and so restores the array exactly when
  that is \<open>x\<close> for every time of the span.
\<close>

theorem pwflat_translate_restore:
  fixes mem :: "'a::{minus, uminus, zero, ord} list"
  assumes "p + n \<le> length mem"
  shows "(case pwflat_translate u n p mem of
            (mem1, (q, m)) \<Rightarrow>
              length mem1 = length mem
              \<and> (\<forall>i<length mem.
                    mem1 ! i = (if p \<le> i \<and> i < p + n then mem ! i - u else mem ! i))
              \<and> p \<le> q \<and> q + m = p + n
              \<and> ((\<forall>i j. p \<le> i \<and> i < j \<and> j < p + n \<and> 0 < mem1 ! i \<longrightarrow> 0 < mem1 ! j)
                   \<longrightarrow> (\<forall>i. p \<le> i \<and> i < q \<longrightarrow> \<not> 0 < mem1 ! i)
                       \<and> (\<forall>i. q \<le> i \<and> i < p + n \<longrightarrow> 0 < mem1 ! i))
              \<and> (\<forall>i<length mem.
                    fst (pwflat_translate (- u) m q mem1) ! i
                      = (if q \<le> i \<and> i < p + n then (mem ! i - u) - (- u)
                         else if p \<le> i \<and> i < q then mem ! i - u
                         else mem ! i))
              \<and> (\<forall>i<length mem.
                    fst (pwflat_translate (- u) n p mem1) ! i
                      = (if p \<le> i \<and> i < p + n then (mem ! i - u) - (- u) else mem ! i)))
       \<and> (case translate_ctor u (p, n) mem of
            (x, mem1) \<Rightarrow>
              mem1 = fst (pwflat_translate u n p mem)
              \<and> translate_span x = snd (pwflat_translate u n p mem)
              \<and> translate_size x = snd (snd (pwflat_translate u n p mem))
              \<and> (\<forall>i<length mem.
                    translate_dtor x mem1 ! i
                      = (if p \<le> i \<and> i < p + n then (mem ! i - u) - (- u) else mem ! i))
              \<and> (translate_dtor x mem1 = mem
                   \<longleftrightarrow> (\<forall>i. p \<le> i \<and> i < p + n \<longrightarrow> (mem ! i - u) - (- u) = mem ! i)))"
proof -
  define mem1 where "mem1 = transform_minus u n p mem"
  define r where "r = upper_bound (drop p mem1) n 0"
  have r: "r \<le> n" by (simp add: r_def upper_bound_le)
  have len1: "length mem1 = length mem" by (simp add: mem1_def)
  have tr: "pwflat_translate u n p mem = (mem1, (p + r, n - r))"
    by (simp add: pwflat_translate_def mem1_def r_def Let_def)
  have cells: "mem1 ! i = (if p \<le> i \<and> i < p + n then mem ! i - u else mem ! i)"
    if "i < length mem" for i
    using that by (simp add: mem1_def nth_transform_minus)
  have part: "(\<forall>i. p \<le> i \<and> i < p + r \<longrightarrow> \<not> 0 < mem1 ! i)
               \<and> (\<forall>i. p + r \<le> i \<and> i < p + n \<longrightarrow> 0 < mem1 ! i)"
    if "\<forall>i j. p \<le> i \<and> i < j \<and> j < p + n \<and> 0 < mem1 ! i \<longrightarrow> 0 < mem1 ! j"
    unfolding r_def using assms that len1 by (intro upper_bound_partition) simp_all
  have sub: "fst (pwflat_translate (- u) (n - r) (p + r) mem1) ! i
               = (if p + r \<le> i \<and> i < p + n then (mem ! i - u) - (- u)
                  else if p \<le> i \<and> i < p + r then mem ! i - u
                  else mem ! i)"
    if "i < length mem" for i
    using that r len1 cells[OF that]
    by (simp add: pwflat_translate_def Let_def nth_transform_minus)
  have full: "fst (pwflat_translate (- u) n p mem1) ! i
               = (if p \<le> i \<and> i < p + n then (mem ! i - u) - (- u) else mem ! i)"
    if "i < length mem" for i
    using that len1 cells[OF that]
    by (simp add: pwflat_translate_def Let_def nth_transform_minus)
  have full_len: "length (fst (pwflat_translate (- u) n p mem1)) = length mem"
    by (simp add: pwflat_translate_def Let_def len1)
  have restored: "fst (pwflat_translate (- u) n p mem1) = mem
                   \<longleftrightarrow> (\<forall>i. p \<le> i \<and> i < p + n \<longrightarrow> (mem ! i - u) - (- u) = mem ! i)"
  proof
    assume eq: "fst (pwflat_translate (- u) n p mem1) = mem"
    show "\<forall>i. p \<le> i \<and> i < p + n \<longrightarrow> (mem ! i - u) - (- u) = mem ! i"
    proof (intro allI impI)
      fix i assume i: "p \<le> i \<and> i < p + n"
      then have "i < length mem" using assms by simp
      then show "(mem ! i - u) - (- u) = mem ! i"
        using full[of i] i eq by simp
    qed
  next
    assume inv: "\<forall>i. p \<le> i \<and> i < p + n \<longrightarrow> (mem ! i - u) - (- u) = mem ! i"
    show "fst (pwflat_translate (- u) n p mem1) = mem"
    proof (rule nth_equalityI)
      show "length (fst (pwflat_translate (- u) n p mem1)) = length mem" by (rule full_len)
    next
      fix i assume "i < length (fst (pwflat_translate (- u) n p mem1))"
      then have "i < length mem" by (simp add: full_len)
      then show "fst (pwflat_translate (- u) n p mem1) ! i = mem ! i"
        using full[of i] inv by simp
    qed
  qed
  have ctor: "translate_ctor u (p, n) mem = (\<lparr>tr_dt = u, tr_n = n - r, tr_t = (p, n)\<rparr>, mem1)"
    by (simp add: translate_ctor_def pwflat_translate_span_def tr)
  have dtor: "translate_dtor \<lparr>tr_dt = u, tr_n = n - r, tr_t = (p, n)\<rparr> mem1
                = fst (pwflat_translate (- u) n p mem1)"
    by (simp add: translate_dtor_def pwflat_translate_span_def)
  have view: "translate_span \<lparr>tr_dt = u, tr_n = n - r, tr_t = (p, n)\<rparr> = (p + r, n - r)"
    using r by (simp add: translate_span_def)
  have A: "length mem1 = length mem
              \<and> (\<forall>i<length mem.
                    mem1 ! i = (if p \<le> i \<and> i < p + n then mem ! i - u else mem ! i))
              \<and> p \<le> p + r \<and> p + r + (n - r) = p + n
              \<and> ((\<forall>i j. p \<le> i \<and> i < j \<and> j < p + n \<and> 0 < mem1 ! i \<longrightarrow> 0 < mem1 ! j)
                   \<longrightarrow> (\<forall>i. p \<le> i \<and> i < p + r \<longrightarrow> \<not> 0 < mem1 ! i)
                       \<and> (\<forall>i. p + r \<le> i \<and> i < p + n \<longrightarrow> 0 < mem1 ! i))
              \<and> (\<forall>i<length mem.
                    fst (pwflat_translate (- u) (n - r) (p + r) mem1) ! i
                      = (if p + r \<le> i \<and> i < p + n then (mem ! i - u) - (- u)
                         else if p \<le> i \<and> i < p + r then mem ! i - u
                         else mem ! i))
              \<and> (\<forall>i<length mem.
                    fst (pwflat_translate (- u) n p mem1) ! i
                      = (if p \<le> i \<and> i < p + n then (mem ! i - u) - (- u) else mem ! i))"
  proof (intro conjI)
    show "length mem1 = length mem" by (rule len1)
    show "\<forall>i<length mem. mem1 ! i = (if p \<le> i \<and> i < p + n then mem ! i - u else mem ! i)"
      using cells by blast
    show "p \<le> p + r" by simp
    show "p + r + (n - r) = p + n" using r by simp
    show "(\<forall>i j. p \<le> i \<and> i < j \<and> j < p + n \<and> 0 < mem1 ! i \<longrightarrow> 0 < mem1 ! j)
                   \<longrightarrow> (\<forall>i. p \<le> i \<and> i < p + r \<longrightarrow> \<not> 0 < mem1 ! i)
                       \<and> (\<forall>i. p + r \<le> i \<and> i < p + n \<longrightarrow> 0 < mem1 ! i)"
      using part by blast
    show "\<forall>i<length mem.
                    fst (pwflat_translate (- u) (n - r) (p + r) mem1) ! i
                      = (if p + r \<le> i \<and> i < p + n then (mem ! i - u) - (- u)
                         else if p \<le> i \<and> i < p + r then mem ! i - u
                         else mem ! i)"
      using sub by blast
    show "\<forall>i<length mem.
                    fst (pwflat_translate (- u) n p mem1) ! i
                      = (if p \<le> i \<and> i < p + n then (mem ! i - u) - (- u) else mem ! i)"
      using full by blast
  qed
  have B: "mem1 = fst (mem1, (p + r, n - r))
              \<and> translate_span \<lparr>tr_dt = u, tr_n = n - r, tr_t = (p, n)\<rparr> = snd (mem1, (p + r, n - r))
              \<and> translate_size \<lparr>tr_dt = u, tr_n = n - r, tr_t = (p, n)\<rparr> = snd (snd (mem1, (p + r, n - r)))
              \<and> (\<forall>i<length mem.
                    translate_dtor \<lparr>tr_dt = u, tr_n = n - r, tr_t = (p, n)\<rparr> mem1 ! i
                      = (if p \<le> i \<and> i < p + n then (mem ! i - u) - (- u) else mem ! i))
              \<and> (translate_dtor \<lparr>tr_dt = u, tr_n = n - r, tr_t = (p, n)\<rparr> mem1 = mem
                   \<longleftrightarrow> (\<forall>i. p \<le> i \<and> i < p + n \<longrightarrow> (mem ! i - u) - (- u) = mem ! i))"
  proof (intro conjI)
    show "mem1 = fst (mem1, (p + r, n - r))" by simp
    show "translate_span \<lparr>tr_dt = u, tr_n = n - r, tr_t = (p, n)\<rparr> = snd (mem1, (p + r, n - r))"
      using view by simp
    show "translate_size \<lparr>tr_dt = u, tr_n = n - r, tr_t = (p, n)\<rparr> = snd (snd (mem1, (p + r, n - r)))"
      by (simp add: translate_size_def)
    show "\<forall>i<length mem.
                    translate_dtor \<lparr>tr_dt = u, tr_n = n - r, tr_t = (p, n)\<rparr> mem1 ! i
                      = (if p \<le> i \<and> i < p + n then (mem ! i - u) - (- u) else mem ! i)"
      unfolding dtor using full by blast
    show "translate_dtor \<lparr>tr_dt = u, tr_n = n - r, tr_t = (p, n)\<rparr> mem1 = mem
                   \<longleftrightarrow> (\<forall>i. p \<le> i \<and> i < p + n \<longrightarrow> (mem ! i - u) - (- u) = mem ! i)"
      unfolding dtor by (rule restored)
  qed
  show ?thesis
    unfolding tr ctor prod.case using A B by (rule conjI)
qed

theorem pwflat_translate_restore_witness:
  "0 + 3 \<le> length [Double 1, Double 2, Double 4]
   \<and> pwflat_translate (Double 1) 3 0 [Double 1, Double 2, Double 4]
       = ([Double 0, Double 1, Double 3], (1, 2))
   \<and> \<not> 0 < [Double 0, Double 1, Double 3] ! 0
   \<and> 0 < [Double 0, Double 1, Double 3] ! 1
   \<and> 0 < [Double 0, Double 1, Double 3] ! 2
   \<and> fst (pwflat_translate (- Double 1) 2 1 [Double 0, Double 1, Double 3]) ! 0
       = [Double 1, Double 2, Double 4] ! 0 - Double 1
   \<and> translate_dtor (fst (translate_ctor (Double 1) (0, 3) [Double 1, Double 2, Double 4]))
                      (snd (translate_ctor (Double 1) (0, 3) [Double 1, Double 2, Double 4]))
       = [Double 1, Double 2, Double 4]"
proof -
  have len: "0 + 3 \<le> length [Double 1, Double 2, Double 4]" by simp
  have tr: "pwflat_translate (Double 1) 3 0 [Double 1, Double 2, Double 4]
       = ([Double 0, Double 1, Double 3], (1, 2))"
    unfolding pwflat_translate_def transform_minus_def upper_bound_def
    by (simp add: double_shift_values bisect.simps Let_def del: double_simps(1,2))
  have ordered: "\<forall>i j. 0 \<le> i \<and> i < j \<and> j < 0 + 3 \<and> 0 < [Double 0, Double 1, Double 3] ! i
                   \<longrightarrow> 0 < [Double 0, Double 1, Double 3] ! j"
    by (auto simp: less_Suc_eq numeral_3_eq_3)
  have inverse: "\<forall>i. 0 \<le> i \<and> i < 0 + 3
                   \<longrightarrow> ([Double 1, Double 2, Double 4] ! i - Double 1) - (- Double 1)
                       = [Double 1, Double 2, Double 4] ! i"
    by (auto simp: less_Suc_eq numeral_3_eq_3 double_shift_values simp del: double_simps(1,2))
  note th = pwflat_translate_restore[OF len, of "Double 1", unfolded tr prod.case]
  have a: "\<not> 0 < [Double 0, Double 1, Double 3] ! 0"
    and b: "0 < [Double 0, Double 1, Double 3] ! 1"
    and c: "0 < [Double 0, Double 1, Double 3] ! 2"
    using th ordered by simp_all
  have d: "fst (pwflat_translate (- Double 1) 2 1 [Double 0, Double 1, Double 3]) ! 0
       = [Double 1, Double 2, Double 4] ! 0 - Double 1"
    using th by (simp del: double_simps(1,2))
  have e: "translate_dtor (fst (translate_ctor (Double 1) (0, 3) [Double 1, Double 2, Double 4]))
                      (snd (translate_ctor (Double 1) (0, 3) [Double 1, Double 2, Double 4]))
       = [Double 1, Double 2, Double 4]"
    using th inverse
    by (cases "translate_ctor (Double 1) (0, 3) [Double 1, Double 2, Double 4]") simp
  show ?thesis using len tr a b c d e by blast
qed

end
